theory Spec2Isabelle
  imports Complex_Main
begin

section \<open>Numbers\<close>

text \<open>
  The program computes with JavaScript numbers. Every number the modelled functions
  handle is an integer or NaN, so a number is an \<open>int option\<close> with \<open>None\<close> for
  NaN. JavaScript numbers are IEEE doubles: the integer model is exact as long as all
  magnitudes stay below \<open>2 ^ 53\<close>, which holds for both configurations of the pool
  (\<open>128 ^ 5 = 2 ^ 35\<close>). Times are rationals (\<open>1.25 * pulseMs\<close> is a half
  millisecond value).
\<close>

type_synonym number = "int option"

definition num2 :: "(int \<Rightarrow> int \<Rightarrow> int) \<Rightarrow> number \<Rightarrow> number \<Rightarrow> number" where
  "num2 f a b = (case a of None \<Rightarrow> None | Some x \<Rightarrow> (case b of None \<Rightarrow> None | Some y \<Rightarrow> Some (f x y)))"

text \<open>\<open>a % b\<close>: the remainder has the sign of the dividend; \<open>a % 0\<close> is NaN.\<close>

definition js_rem :: "number \<Rightarrow> number \<Rightarrow> number" where
  "js_rem a b = (if b = Some 0 then None else num2 (\<lambda>x y. sgn x * (\<bar>x\<bar> mod \<bar>y\<bar>)) a b)"

text \<open>
  \<open>a / b\<close> where the quotient is an integer (in \<open>bigIntegerToList\<close> the dividend is
  \<open>feed - feed % b\<close>). A zero divisor gives NaN or an infinity in JavaScript; there the
  dividend is NaN already.
\<close>

definition js_quot :: "number \<Rightarrow> number \<Rightarrow> number" where
  "js_quot a b = (if b = Some 0 then None else num2 (\<lambda>x y. x div y) a b)"

text \<open>\<open>list[i]\<close>: reading past the end yields \<open>undefined\<close>, which is NaN in arithmetic.\<close>

definition at_index :: "number list \<Rightarrow> nat \<Rightarrow> number" where
  "at_index list i = (if i < length list then list ! i else None)"

section \<open>Integer codec\<close>

text \<open>
  \<open>listToBigInteger\<close>: \<open>for (let i = listSize - 1; i >= 0; --i) result = result *
  maxSmallInteger + list[i]\<close>. The first argument of the loop is \<open>i + 1\<close>.
\<close>

fun listToBigInteger_loop :: "number list \<Rightarrow> number \<Rightarrow> nat \<Rightarrow> number \<Rightarrow> number" where
  "listToBigInteger_loop list maxSmallInteger 0 result = result"
| "listToBigInteger_loop list maxSmallInteger (Suc i) result =
     listToBigInteger_loop list maxSmallInteger i
       (num2 (+) (num2 (*) result maxSmallInteger) (at_index list i))"

definition listToBigInteger :: "number list \<Rightarrow> nat \<Rightarrow> number \<Rightarrow> number" where
  "listToBigInteger list listSize maxSmallInteger =
     listToBigInteger_loop list maxSmallInteger listSize (Some 0)"

text \<open>
  \<open>bigIntegerToList\<close>: \<open>listSize\<close> rounds of \<open>remainder = feed % maxSmallInteger;
  list.push(remainder); feed = (feed - remainder) / maxSmallInteger\<close>. The first argument
  of the loop counts the rounds left.
\<close>

fun bigIntegerToList_loop :: "nat \<Rightarrow> number \<Rightarrow> number list \<Rightarrow> number \<Rightarrow> number list" where
  "bigIntegerToList_loop 0 maxSmallInteger list feed = list"
| "bigIntegerToList_loop (Suc n) maxSmallInteger list feed =
     (let remainder = js_rem feed maxSmallInteger
      in bigIntegerToList_loop n maxSmallInteger (list @ [remainder])
           (js_quot (num2 (-) feed remainder) maxSmallInteger))"

definition bigIntegerToList :: "number \<Rightarrow> nat \<Rightarrow> number \<Rightarrow> number list" where
  "bigIntegerToList bigInteger listSize maxSmallInteger =
     bigIntegerToList_loop listSize maxSmallInteger [] bigInteger"

text \<open>\<open>Number.prototype.toString(16)\<close> on an integer, and on NaN.\<close>

definition hexDigit :: "nat \<Rightarrow> char" where
  "hexDigit d = ''0123456789abcdef'' ! d"

fun toHex :: "nat \<Rightarrow> string" where
  "toHex n = (if n < 16 then [hexDigit n] else toHex (n div 16) @ [hexDigit (n mod 16)])"

declare toHex.simps [simp del]

definition toString16 :: "number \<Rightarrow> string" where
  "toString16 x = (case x of None \<Rightarrow> ''NaN''
     | Some k \<Rightarrow> if k < 0 then CHR ''-'' # toHex (nat (- k)) else toHex (nat k))"

text \<open>
  \<open>bigIntegerToHex\<close>: \<open>nHexDigits = Math.ceil(numBits / 4)\<close>, then
  \<open>(bigInteger + Math.pow(16, nHexDigits)).toString(16).slice(1)\<close>. The model covers
  \<open>numBits > -4\<close>, where \<open>Math.pow(16, nHexDigits)\<close> is an integer.
\<close>

definition bigIntegerToHex :: "number \<Rightarrow> real \<Rightarrow> string" where
  "bigIntegerToHex bigInteger numBits =
     (let nHexDigits = nat \<lceil>numBits / 4\<rceil>
      in drop 1 (toString16 (num2 (+) bigInteger (Some (16 ^ nHexDigits)))))"


section \<open>The socket pool\<close>

text \<open>\<open>WebSocket.readyState\<close>: 0, 1, 2 and 3.\<close>

datatype ready_state = CONNECTING | OPEN | CLOSING | CLOSED

text \<open>A \<open>WebSocket\<close> object: its identity and its \<open>readyState\<close>.\<close>

record socket =
  sid :: nat
  readyState :: ready_state

datatype browser = Chrome | Firefox

text \<open>The table \<open>constants\<close> of the constructor of \<open>SocketPool\<close>.\<close>

record constants =
  listSize :: nat
  maxSlots :: int
  maxValue :: int
  pulseMs :: int
  settlingTimeMs :: int

record pool = constants +
  numBits :: real

definition constantsOf :: "browser \<Rightarrow> constants" where
  "constantsOf kBrowser = (case kBrowser of
     Chrome \<Rightarrow> \<lparr>listSize = 5, maxSlots = 255, maxValue = 128, pulseMs = 50, settlingTimeMs = 0\<rparr>
   | Firefox \<Rightarrow> \<lparr>listSize = 5, maxSlots = 255, maxValue = 128, pulseMs = 350, settlingTimeMs = 50\<rparr>)"

text \<open>
  The constructor: \<open>Object.assign(this, constants)\<close>, then \<open>numBits = listSize *
  Math.log(maxValue) / Math.log(2)\<close>, here with the real logarithm.
\<close>

definition SocketPool :: "browser \<Rightarrow> pool" where
  "SocketPool kBrowser =
     (let c = constantsOf kBrowser
      in \<lparr>listSize = listSize c, maxSlots = maxSlots c, maxValue = maxValue c,
          pulseMs = pulseMs c, settlingTimeMs = settlingTimeMs c,
          numBits = real (listSize c) * ln (real_of_int (maxValue c)) / ln 2\<rparr>)"

text \<open>
  The mutable state of one page: the set \<open>_sockets\<close> in insertion order (every
  \<open>new WebSocket\<close> is a new object, so the set is a list without repetition), the clock
  \<open>Date.now()\<close>, the global \<open>trace\<close>, and three records of what the page did: how many
  sockets it constructed, on which sockets it called \<open>close()\<close>, and how many promises
  were rejected because \<open>releaseOne\<close> found no socket.
\<close>

record tab =
  sockets :: "socket list"
  created :: nat
  closeCalls :: "nat list"
  rejections :: nat
  clock :: int
  timeouts :: nat
  trace :: "(int \<times> nat) list"

text \<open>
  What the page does not control. A page runs to completion between two suspensions, so
  the state of its sockets changes only while it sleeps in \<open>setTimeout\<close>. For the
  timer number \<open>k\<close> of a page, \<open>network k socks\<close> gives the \<open>readyState\<close> every socket
  of the set has when the timer fires, and \<open>lateness k\<close> the milliseconds by which the
  timer fires late. Code between two suspensions takes no time.
\<close>

record environment =
  network :: "nat \<Rightarrow> socket list \<Rightarrow> ready_state list"
  lateness :: "nat \<Rightarrow> nat"

fun deliver :: "socket list \<Rightarrow> ready_state list \<Rightarrow> socket list" where
  "deliver [] rs = []"
| "deliver (s # ss) [] = s # ss"
| "deliver (s # ss) (r # rs) = s\<lparr>readyState := r\<rparr> # deliver ss rs"

text \<open>\<open>held\<close>, \<open>consumeOne\<close>, \<open>releaseOne\<close>, \<open>collectGarbage\<close> and \<open>log\<close> of \<open>SocketPool\<close>.\<close>

definition held :: "tab \<Rightarrow> nat" where
  "held t = length (sockets t)"

definition logHeld :: "tab \<Rightarrow> tab" where
  "logHeld t = t\<lparr>trace := trace t @ [(clock t, held t)]\<rparr>"

definition consumeOne :: "tab \<Rightarrow> tab" where
  "consumeOne t = t\<lparr>sockets := sockets t @ [\<lparr>sid = created t, readyState = CONNECTING\<rparr>],
                      created := Suc (created t)\<rparr>"

text \<open>
  \<open>releaseOne\<close> takes the first socket of the set. On an empty set the socket is
  \<open>undefined\<close> and \<open>socket.close()\<close> throws; the function is \<open>async\<close> and nobody awaits
  it, so the page goes on with a rejected promise and an unchanged set.
\<close>

definition releaseOne :: "tab \<Rightarrow> tab" where
  "releaseOne t = (case sockets t of
     [] \<Rightarrow> t\<lparr>rejections := Suc (rejections t)\<rparr>
   | socket # rest \<Rightarrow> t\<lparr>sockets := rest, closeCalls := closeCalls t @ [sid socket]\<rparr>)"

definition collectGarbage :: "tab \<Rightarrow> tab" where
  "collectGarbage t = t\<lparr>sockets := filter (\<lambda>socket. readyState socket \<noteq> CLOSED) (sockets t)\<rparr>"

section \<open>Timers\<close>

text \<open>
  \<open>sleepMs\<close>: \<open>setTimeout\<close> truncates the interval to whole milliseconds and takes a
  negative one as zero.
\<close>

definition sleepMs :: "environment \<Rightarrow> rat \<Rightarrow> tab \<Rightarrow> tab" where
  "sleepMs env interval t =
     t\<lparr>sockets := deliver (sockets t) (network env (timeouts t) (sockets t)),
       clock := clock t + max 0 \<lfloor>interval\<rfloor> + int (lateness env (timeouts t)),
       timeouts := Suc (timeouts t)\<rparr>"

definition sleepUntil :: "environment \<Rightarrow> rat \<Rightarrow> tab \<Rightarrow> int \<times> tab" where
  "sleepUntil env timeMs t =
     (let t' = sleepMs env (timeMs - of_int (clock t)) t in (clock t', t'))"

text \<open>\<open>Math.ceil(Date.now() / interval) * interval\<close>, for an interval other than zero.\<close>

definition sleepUntilNextRoundInterval :: "environment \<Rightarrow> int \<Rightarrow> tab \<Rightarrow> int \<times> tab" where
  "sleepUntilNextRoundInterval env interval t =
     sleepUntil env (of_int (\<lceil>(of_int (clock t) :: rat) / of_int interval\<rceil> * interval)) t"

section \<open>Bulk operations\<close>

text \<open>The rounds of \<open>for (let i = 0; i < max; ++i)\<close>: none when \<open>max\<close> is NaN.\<close>

definition iterations :: "number \<Rightarrow> nat" where
  "iterations mx = (case mx of None \<Rightarrow> 0 | Some k \<Rightarrow> nat k)"

fun consume_loop :: "nat \<Rightarrow> tab \<Rightarrow> tab" where
  "consume_loop 0 t = t"
| "consume_loop (Suc n) t = consume_loop n (logHeld (consumeOne t))"

definition consume :: "environment \<Rightarrow> pool \<Rightarrow> number \<Rightarrow> tab \<Rightarrow> int \<times> tab" where
  "consume env pool mx t =
     (let t0 = logHeld t;
          nStart = held t0;
          t1 = consume_loop (iterations mx) t0;
          t2 = sleepMs env (of_int (settlingTimeMs pool)) t1;
          t3 = collectGarbage t2;
          nFinish = held t3;
          t4 = logHeld t3
      in (int nFinish - int nStart, t4))"

text \<open>
  The state in which \<open>consume\<close> calls \<open>collectGarbage\<close>, and the number of sockets of
  the set that are closed, which is what \<open>collectGarbage\<close> prunes.
\<close>

definition consume_settled :: "environment \<Rightarrow> pool \<Rightarrow> number \<Rightarrow> tab \<Rightarrow> tab" where
  "consume_settled env pool mx t =
     sleepMs env (of_int (settlingTimeMs pool)) (consume_loop (iterations mx) (logHeld t))"

definition closedCount :: "tab \<Rightarrow> nat" where
  "closedCount t = length (filter (\<lambda>socket. readyState socket = CLOSED) (sockets t))"

fun release_loop :: "nat \<Rightarrow> tab \<Rightarrow> tab" where
  "release_loop 0 t = t"
| "release_loop (Suc n) t = release_loop n (logHeld (releaseOne t))"

definition release :: "environment \<Rightarrow> pool \<Rightarrow> number \<Rightarrow> tab \<Rightarrow> number \<times> tab" where
  "release env pool mx t =
     (let t0 = logHeld t
      in if mx = Some 0 then (Some 0, t0)
         else
           let numberToRelease = num2 min mx (Some (int (held t0)));
               t1 = release_loop (iterations numberToRelease) t0;
               t2 = sleepMs env (of_int (settlingTimeMs pool)) t1;
               t3 = logHeld t2
           in (numberToRelease, t3))"

definition probe :: "environment \<Rightarrow> pool \<Rightarrow> number \<Rightarrow> tab \<Rightarrow> int \<times> tab" where
  "probe env pool mx t =
     (let (consumedCount, t1) = consume env pool mx t;
          (released, t2) = release env pool (Some consumedCount) t1
      in (consumedCount, t2))"

section \<open>Role negotiation\<close>

definition isSender :: "environment \<Rightarrow> pool \<Rightarrow> tab \<Rightarrow> bool \<times> tab" where
  "isSender env pool t =
     (let (released, t1) = release env pool (Some (int (held t))) t;
          (consumed, t2) = consume env pool (Some (maxSlots pool)) t1
      in if (of_nat (held t2) :: rat) < of_int (maxSlots pool) / 2
         then let (released', t3) = release env pool (Some (int (held t2))) t2 in (False, t3)
         else (True, t2))"

section \<open>Transmitter and receiver\<close>

text \<open>\<open>delta > 0\<close>: false when \<open>delta\<close> is NaN.\<close>

definition positive :: "number \<Rightarrow> bool" where
  "positive x = (case x of None \<Rightarrow> False | Some k \<Rightarrow> 0 < k)"

text \<open>
  One round of the loop of \<open>sendInteger\<close>: pulse \<open>i\<close>, with \<open>lastInteger\<close> from the
  round before. It returns the new \<open>lastInteger\<close>.
\<close>

definition sendInteger_pulse ::
  "environment \<Rightarrow> browser \<Rightarrow> pool \<Rightarrow> rat \<Rightarrow> number list \<Rightarrow> nat \<Rightarrow> number \<Rightarrow> tab \<Rightarrow> number \<times> tab" where
  "sendInteger_pulse env kBrowser pool startTime list i lastInteger t =
     (let (woken, t1) = sleepUntil env (startTime + (of_nat i + 1) * of_int (pulseMs pool)) t;
          integer = num2 (+) (Some 1) (at_index list i)
      in if kBrowser = Firefox
         then
           let (consumed, t2) = consume env pool (num2 (+) lastInteger (Some 5)) t1;
               (released, t3) = release env pool integer t2
           in (integer, t3)
         else
           let delta = num2 (-) integer lastInteger
           in if positive delta
              then let (released, t2) = release env pool delta t1 in (integer, t2)
              else let (consumed, t2) = consume env pool (num2 (-) (Some 0) delta) t1
                   in (integer, t2))"

text \<open>The loop from pulse \<open>i\<close> on, with \<open>n\<close> rounds left.\<close>

fun sendInteger_loop ::
  "environment \<Rightarrow> browser \<Rightarrow> pool \<Rightarrow> rat \<Rightarrow> number list \<Rightarrow> nat \<Rightarrow> nat \<Rightarrow> number \<Rightarrow> tab \<Rightarrow> tab" where
  "sendInteger_loop env kBrowser pool startTime list 0 i lastInteger t = t"
| "sendInteger_loop env kBrowser pool startTime list (Suc n) i lastInteger t =
     (let (integer, t') = sendInteger_pulse env kBrowser pool startTime list i lastInteger t
      in sendInteger_loop env kBrowser pool startTime list n (Suc i) integer t')"

definition sendInteger ::
  "environment \<Rightarrow> browser \<Rightarrow> pool \<Rightarrow> int \<Rightarrow> rat \<Rightarrow> tab \<Rightarrow> string \<times> tab" where
  "sendInteger env kBrowser pool bigInteger startTime t =
     (let list = bigIntegerToList (Some bigInteger) (listSize pool) (Some (maxValue pool));
          (consumed, t1) = consume env pool (Some (maxSlots pool - int (held t))) t;
          t2 = sendInteger_loop env kBrowser pool startTime list (listSize pool) 0 (Some 0) t1
      in (bigIntegerToHex (Some bigInteger) (numBits pool), t2))"

text \<open>One round of the loop of \<open>receiveInteger\<close>: it returns what is pushed on \<open>integerList\<close>.\<close>

definition receiveInteger_pulse :: "environment \<Rightarrow> pool \<Rightarrow> rat \<Rightarrow> nat \<Rightarrow> tab \<Rightarrow> int \<times> tab" where
  "receiveInteger_pulse env pool startTime i t =
     (let (woken, t1) = sleepUntil env (startTime + (of_nat i + 5 / 4) * of_int (pulseMs pool)) t;
          (integer, t2) = probe env pool (Some (maxValue pool)) t1
      in (integer - 1, t2))"

fun receiveInteger_loop ::
  "environment \<Rightarrow> pool \<Rightarrow> rat \<Rightarrow> nat \<Rightarrow> nat \<Rightarrow> int list \<Rightarrow> tab \<Rightarrow> int list \<times> tab" where
  "receiveInteger_loop env pool startTime 0 i integerList t = (integerList, t)"
| "receiveInteger_loop env pool startTime (Suc n) i integerList t =
     (let (pushed, t') = receiveInteger_pulse env pool startTime i t
      in receiveInteger_loop env pool startTime n (Suc i) (integerList @ [pushed]) t')"

definition receiveInteger :: "environment \<Rightarrow> pool \<Rightarrow> rat \<Rightarrow> tab \<Rightarrow> string \<times> tab" where
  "receiveInteger env pool startTime t =
     (let (integerList, t') = receiveInteger_loop env pool startTime (listSize pool) 0 [] t
      in (bigIntegerToHex
            (listToBigInteger (map Some integerList) (listSize pool) (Some (maxValue pool)))
            (numBits pool), t'))"

section \<open>Cycles\<close>

text \<open>
  One round of the loop of \<open>run\<close>. \<open>bigInteger\<close> is the value \<open>randomBigInteger\<close> draws
  when the page is the sender; the result is the string the round logs.
\<close>

definition cycleStart :: "environment \<Rightarrow> pool \<Rightarrow> tab \<Rightarrow> int \<times> tab" where
  "cycleStart env pool t =
     sleepUntilNextRoundInterval env ((1 + int (listSize pool)) * pulseMs pool) (logHeld t)"

definition cycle :: "environment \<Rightarrow> browser \<Rightarrow> pool \<Rightarrow> int \<Rightarrow> tab \<Rightarrow> string \<times> tab" where
  "cycle env kBrowser pool bigInteger t =
     (let (t0, t1) = cycleStart env pool t;
          (sender, t2) = isSender env pool (logHeld t1)
      in if sender then sendInteger env kBrowser pool bigInteger (of_int t0) t2
         else receiveInteger env pool (of_int t0) t2)"

text \<open>
  \<open>run\<close>: the trace is emptied, ten rounds follow, and a last sample is logged.
  \<open>random i\<close> is the value \<open>randomBigInteger\<close> draws in round \<open>i\<close>.
\<close>

fun run_loop :: "environment \<Rightarrow> browser \<Rightarrow> pool \<Rightarrow> (nat \<Rightarrow> int) \<Rightarrow> nat \<Rightarrow> nat \<Rightarrow> tab \<Rightarrow> tab" where
  "run_loop env kBrowser pool random 0 i t = t"
| "run_loop env kBrowser pool random (Suc n) i t =
     run_loop env kBrowser pool random n (Suc i) (snd (cycle env kBrowser pool (random i) t))"

definition run :: "environment \<Rightarrow> browser \<Rightarrow> pool \<Rightarrow> (nat \<Rightarrow> int) \<Rightarrow> tab \<Rightarrow> tab" where
  "run env kBrowser pool random t =
     logHeld (run_loop env kBrowser pool random 10 0 (t\<lparr>trace := []\<rparr>))"

section \<open>Environments\<close>

text \<open>A page that has just been loaded at time \<open>now\<close>.\<close>

definition freshTab :: "int \<Rightarrow> tab" where
  "freshTab now = \<lparr>sockets = [], created = 0, closeCalls = [], rejections = 0,
                    clock = now, timeouts = 0, trace = []\<rparr>"

text \<open>Nothing happens to the sockets, and every timer fires \<open>late\<close> milliseconds late.\<close>

definition idle :: "nat \<Rightarrow> environment" where
  "idle late = \<lparr>network = (\<lambda>k socks. map readyState socks), lateness = (\<lambda>k. late)\<rparr>"

text \<open>Every connection succeeds within the settling time.\<close>

definition unlimited :: environment where
  "unlimited = \<lparr>network = (\<lambda>k socks. map (\<lambda>socket.
       if readyState socket = CONNECTING then OPEN else readyState socket) socks),
     lateness = (\<lambda>k. 0)\<rparr>"

text \<open>
  A browser that gives the page at most \<open>free\<close> live connections, oldest first, and
  settles every socket before the timer fires: a socket within the limit is open, one
  beyond it is closed, and a closed one stays closed.
\<close>

fun admit :: "nat \<Rightarrow> socket list \<Rightarrow> socket list" where
  "admit free [] = []"
| "admit free (s # ss) =
     (if readyState s = CLOSED then s # admit free ss
      else if 0 < free then s\<lparr>readyState := OPEN\<rparr> # admit (free - 1) ss
      else s\<lparr>readyState := CLOSED\<rparr> # admit free ss)"

text \<open>
  The limit \<open>cap\<close> of the browser is shared by all pages: a page sees what the
  \<open>others\<close> leave of it. Only the sockets in the set of a page count: a socket the
  page has released gives its slot back at once.
\<close>

definition pooled :: "nat \<Rightarrow> nat \<Rightarrow> (nat \<Rightarrow> nat) \<Rightarrow> environment" where
  "pooled cap others late =
     \<lparr>network = (\<lambda>k socks. map readyState (admit (cap - others) socks)), lateness = late\<rparr>"

text \<open>All sockets of the page are open.\<close>

definition quiet :: "tab \<Rightarrow> bool" where
  "quiet t = list_all (\<lambda>socket. readyState socket = OPEN) (sockets t)"

text \<open>
  A sender page and a receiver page under one limit \<open>cap\<close>, over \<open>n\<close> pulses from pulse
  \<open>i\<close> on. In every pulse the sender's round is over when the receiver's round starts,
  and the receiver's round is over when the next pulse starts, so each page sleeps while
  the other holds a fixed number of connections. The result lists, pulse by pulse, the
  sender's held count after its round and what the receiver pushes.
\<close>

fun exchange ::
  "browser \<Rightarrow> pool \<Rightarrow> nat \<Rightarrow> (nat \<Rightarrow> nat) \<Rightarrow> rat \<Rightarrow> number list \<Rightarrow> nat \<Rightarrow> nat \<Rightarrow> number
     \<Rightarrow> tab \<Rightarrow> tab \<Rightarrow> (nat \<times> int) list \<times> tab \<times> tab" where
  "exchange kBrowser pool cap late startTime list 0 i lastInteger sender receiver =
     ([], sender, receiver)"
| "exchange kBrowser pool cap late startTime list (Suc n) i lastInteger sender receiver =
     (let (integer, sender') = sendInteger_pulse (pooled cap (held receiver) late)
                                 kBrowser pool startTime list i lastInteger sender;
          (pushed, receiver') = receiveInteger_pulse (pooled cap (held sender') late)
                                  pool startTime i receiver;
          (rest, sender'', receiver'') = exchange kBrowser pool cap late startTime list n (Suc i)
                                           integer sender' receiver'
      in ((held sender', pushed) # rest, sender'', receiver''))"

section \<open>Sequences of bulk operations\<close>

datatype bulk = Consume number | Release number

definition bulkStep :: "environment \<Rightarrow> pool \<Rightarrow> tab \<Rightarrow> bulk \<Rightarrow> tab" where
  "bulkStep env pool t b = (case b of
     Consume mx \<Rightarrow> snd (consume env pool mx t)
   | Release mx \<Rightarrow> snd (release env pool mx t))"

definition bulkRun :: "environment \<Rightarrow> pool \<Rightarrow> bulk list \<Rightarrow> tab \<Rightarrow> tab" where
  "bulkRun env pool bs t = foldl (bulkStep env pool) t bs"

section \<open>The codec: round trip and hexadecimal width\<close>

lemma js_rem_nonneg: "0 \<le> x \<Longrightarrow> 1 \<le> m \<Longrightarrow> js_rem (Some x) (Some m) = Some (x mod m)"
  by (cases "x = 0") (simp_all add: js_rem_def num2_def)

lemma js_quot_step:
  "1 \<le> m \<Longrightarrow> js_quot (num2 (-) (Some x) (Some (x mod m))) (Some m) = Some (x div m)"
  by (simp add: js_quot_def num2_def minus_mod_eq_mult_div)

text \<open>The digits the encoder pushes, least significant first.\<close>

lemma bigIntegerToList_loop_digits:
  "0 \<le> x \<Longrightarrow> 1 \<le> m \<Longrightarrow>
   bigIntegerToList_loop n (Some m) acc (Some x) =
     acc @ map (\<lambda>k. Some ((x div m ^ k) mod m)) [0..<n]"
proof (induction n arbitrary: acc x)
  case 0
  then show ?case by simp
next
  case (Suc n)
  have nn: "0 \<le> x div m" using Suc.prems by (simp add: pos_imp_zdiv_nonneg_iff)
  have dd: "\<And>k. x div m div m ^ k = x div (m * m ^ k)"
    using Suc.prems by (simp add: zdiv_zmult2_eq)
  show ?case
    using Suc.prems Suc.IH[OF nn Suc.prems(2)]
    by (simp add: js_rem_nonneg js_quot_step map_upt_Suc dd del: upt_Suc)
qed

lemma bigIntegerToList_digits:
  "0 \<le> x \<Longrightarrow> 1 \<le> m \<Longrightarrow>
   bigIntegerToList (Some x) n (Some m) = map (\<lambda>k. Some ((x div m ^ k) mod m)) [0..<n]"
  by (simp add: bigIntegerToList_def bigIntegerToList_loop_digits)

text \<open>The decoder on a list without NaN: Horner's rule from index \<open>i - 1\<close> down.\<close>

lemma listToBigInteger_loop_sum:
  "i \<le> n \<Longrightarrow>
   listToBigInteger_loop (map (\<lambda>k. Some (f k)) [0..<n]) (Some m) i (Some r) =
     Some (r * m ^ i + (\<Sum>k<i. f k * m ^ k))"
proof (induction i arbitrary: r)
  case 0
  then show ?case by simp
next
  case (Suc i)
  then show ?case
    by (simp add: at_index_def num2_def algebra_simps)
qed

lemma digit_sum: "0 \<le> (m::int) \<Longrightarrow> (\<Sum>k<n. ((x div m ^ k) mod m) * m ^ k) = x mod m ^ n"
proof (induction n)
  case 0
  then show ?case by simp
next
  case (Suc n)
  have "x mod (m ^ n * m) = m ^ n * (x div m ^ n mod m) + x mod m ^ n"
    using Suc.prems by (intro zmod_zmult2_eq) simp
  with Suc show ?case by (simp add: mult.commute)
qed











text \<open>The two examples of the hexadecimal format: the least and the greatest payload.\<close>

lemma bigIntegerToHex_examples:
  "bigIntegerToHex (Some 0) 35 = ''000000000''"
  "bigIntegerToHex (Some (128 ^ 5 - 1)) 35 = ''7ffffffff''"
  by (simp_all add: bigIntegerToHex_def toString16_def num2_def hexDigit_def toHex.simps)

section \<open>The pool: what the bulk operations change\<close>

lemma length_deliver [simp]: "length (deliver ss rs) = length ss"
  by (induction ss rs rule: deliver.induct) simp_all

lemma map_sid_deliver [simp]: "map sid (deliver ss rs) = map sid ss"
  by (induction ss rs rule: deliver.induct) simp_all

lemma deliver_same [simp]: "deliver ss (map readyState ss) = ss"
  by (induction ss) simp_all

lemma logHeld_fields [simp]:
  "sockets (logHeld t) = sockets t" "created (logHeld t) = created t"
  "closeCalls (logHeld t) = closeCalls t" "rejections (logHeld t) = rejections t"
  "clock (logHeld t) = clock t" "timeouts (logHeld t) = timeouts t"
  "held (logHeld t) = held t" "trace (logHeld t) = trace t @ [(clock t, held t)]"
  by (simp_all add: logHeld_def held_def)

lemma sleepMs_fields [simp]:
  "sockets (sleepMs env d t) = deliver (sockets t) (network env (timeouts t) (sockets t))"
  "created (sleepMs env d t) = created t"
  "closeCalls (sleepMs env d t) = closeCalls t" "rejections (sleepMs env d t) = rejections t"
  "clock (sleepMs env d t) = clock t + max 0 \<lfloor>d\<rfloor> + int (lateness env (timeouts t))"
  "timeouts (sleepMs env d t) = Suc (timeouts t)"
  "held (sleepMs env d t) = held t" "trace (sleepMs env d t) = trace t"
  by (simp_all add: sleepMs_def held_def)

lemma collectGarbage_fields [simp]:
  "sockets (collectGarbage t) = filter (\<lambda>s. readyState s \<noteq> CLOSED) (sockets t)"
  "created (collectGarbage t) = created t"
  "closeCalls (collectGarbage t) = closeCalls t" "rejections (collectGarbage t) = rejections t"
  "clock (collectGarbage t) = clock t" "timeouts (collectGarbage t) = timeouts t"
  "trace (collectGarbage t) = trace t"
  by (simp_all add: collectGarbage_def)

lemma consume_loop_fields [simp]:
  "closeCalls (consume_loop n t) = closeCalls t" "rejections (consume_loop n t) = rejections t"
  "clock (consume_loop n t) = clock t" "timeouts (consume_loop n t) = timeouts t"
  "created (consume_loop n t) = created t + n"
  "held (consume_loop n t) = held t + n"
  by (induction n arbitrary: t; simp add: consumeOne_def held_def)+

lemma consume_loop_sockets:
  "sockets (consume_loop n t) =
     sockets t @ map (\<lambda>j. \<lparr>sid = created t + j, readyState = CONNECTING\<rparr>) [0..<n]"
proof (induction n arbitrary: t)
  case 0
  then show ?case by simp
next
  case (Suc n)
  show ?case
    by (simp add: Suc.IH consumeOne_def map_upt_Suc del: upt_Suc)
qed

lemma release_loop_fixed [simp]:
  "clock (release_loop n t) = clock t" "timeouts (release_loop n t) = timeouts t"
  "created (release_loop n t) = created t"
  by (induction n arbitrary: t; simp add: releaseOne_def split: list.splits)+

text \<open>
  Within the held count every round of the release loop finds a socket: the oldest
  sockets leave the set, \<open>close()\<close> is called on them in that order, no promise is
  rejected.
\<close>

lemma release_loop_within:
  "n \<le> held t \<Longrightarrow>
     sockets (release_loop n t) = drop n (sockets t)
     \<and> closeCalls (release_loop n t) = closeCalls t @ map sid (take n (sockets t))
     \<and> rejections (release_loop n t) = rejections t"
proof (induction n arbitrary: t)
  case 0
  then show ?case by simp
next
  case (Suc n)
  then obtain s ss where ss: "sockets t = s # ss" by (cases "sockets t") (auto simp: held_def)
  have one: "sockets (releaseOne t) = ss" "closeCalls (releaseOne t) = closeCalls t @ [sid s]"
    "rejections (releaseOne t) = rejections t"
    by (simp_all add: releaseOne_def ss)
  have "n \<le> held (logHeld (releaseOne t))"
    using Suc.prems by (simp add: held_def ss releaseOne_def)
  from Suc.IH[OF this] show ?case by (simp add: one ss)
qed

lemma iterations_min_held: "iterations (num2 min mx (Some (int (held t)))) \<le> held t"
  by (cases mx) (simp_all add: iterations_def num2_def)

text \<open>On an empty set \<open>releaseOne\<close> does reach its failing branch.\<close>

lemma releaseOne_empty: "sockets t = [] \<Longrightarrow> rejections (releaseOne t) = Suc (rejections t)"
  by (simp add: releaseOne_def)

text \<open>
  C10: for every pool state and every \<open>max\<close>, \<open>release\<close> runs \<open>releaseOne\<close> at most
  \<open>held\<close> times, so \<open>releaseOne\<close> never finds the set empty on this path: the lookup of
  the oldest socket is never \<open>undefined\<close> and no promise is rejected.
\<close>

theorem release_never_rejects:
  "iterations (num2 min mx (Some (int (held t)))) \<le> held t
   \<and> rejections (snd (release env pool mx t)) = rejections t"
proof -
  have "iterations (num2 min mx (Some (int (held (logHeld t))))) \<le> held (logHeld t)"
    by (rule iterations_min_held)
  from release_loop_within[OF this] show ?thesis
    by (simp add: release_def Let_def iterations_min_held)
qed

lemma release_Some:
  "release env pool (Some m) t =
     (if m = 0 then (Some 0, logHeld t)
      else (Some (min m (int (held t))),
            logHeld (sleepMs env (of_int (settlingTimeMs pool))
              (release_loop (nat (min m (int (held t)))) (logHeld t)))))"
  by (simp add: release_def Let_def num2_def iterations_def)

lemma consume_eq:
  "consume env pool mx t =
     (int (held (collectGarbage (consume_settled env pool mx t))) - int (held t),
      logHeld (collectGarbage (consume_settled env pool mx t)))"
  by (simp add: consume_def consume_settled_def Let_def)

lemma held_collectGarbage: "held (collectGarbage t) + closedCount t = held t"
proof -
  have "length (filter (\<lambda>s. readyState s \<noteq> CLOSED) (sockets t))
        + length (filter (\<lambda>s. \<not> readyState s \<noteq> CLOSED) (sockets t)) = length (sockets t)"
    by (rule sum_length_filter_compl)
  then show ?thesis by (simp add: held_def closedCount_def)
qed

lemma held_consume_settled: "held (consume_settled env pool mx t) = held t + iterations mx"
  by (simp add: consume_settled_def)

lemma held_consume:
  "held (snd (consume env pool mx t)) + closedCount (consume_settled env pool mx t)
     = held t + iterations mx"
  using held_collectGarbage[of "consume_settled env pool mx t"]
  by (simp add: consume_eq held_consume_settled)

lemma fst_consume:
  "fst (consume env pool mx t) = int (iterations mx) - int (closedCount (consume_settled env pool mx t))"
  using held_collectGarbage[of "consume_settled env pool mx t"]
  by (simp add: consume_eq held_consume_settled)

lemma held_release_Some:
  "int (held (snd (release env pool (Some m) t))) = int (held t) - max 0 (min m (int (held t)))"
proof (cases "m = 0")
  case True
  then show ?thesis by (simp add: release_Some)
next
  case False
  let ?n = "nat (min m (int (held t)))"
  have "?n \<le> held (logHeld t)" by simp
  from release_loop_within[OF this] have "sockets (release_loop ?n (logHeld t)) = drop ?n (sockets t)"
    by simp
  then have "held (release_loop ?n (logHeld t)) = held t - ?n" by (simp add: held_def)
  with False show ?thesis by (simp add: release_Some) 
qed

text \<open>
  C8, amended: for every pool state and every \<open>max \<ge> 0\<close>, \<open>release\<close> takes the
  \<open>min max held\<close> oldest sockets out of the set and calls \<open>close()\<close> on them in that
  order, and returns \<open>min max held\<close>. For \<open>max \<noteq> 0\<close> it sleeps once for
  \<open>settlingTimeMs\<close> before it returns; for \<open>max = 0\<close> it returns at once, without
  sleeping.
\<close>

theorem release_effect:
  assumes "0 \<le> m"
  shows "(case release env pool (Some m) t of (r, t') \<Rightarrow>
       r = Some (min m (int (held t)))
     \<and> map sid (sockets t') = drop (nat (min m (int (held t)))) (map sid (sockets t))
     \<and> closeCalls t' = closeCalls t @ take (nat (min m (int (held t)))) (map sid (sockets t))
     \<and> int (held t') = int (held t) - min m (int (held t))
     \<and> (m \<noteq> 0 \<longrightarrow> timeouts t' = Suc (timeouts t)
           \<and> clock t' = clock t + max 0 (settlingTimeMs pool) + int (lateness env (timeouts t)))
     \<and> (m = 0 \<longrightarrow> timeouts t' = timeouts t \<and> clock t' = clock t))"
proof (cases "m = 0")
  case True
  then show ?thesis by (simp add: release_Some)
next
  case False
  let ?n = "nat (min m (int (held t)))"
  have "?n \<le> held (logHeld t)" by simp
  from release_loop_within[OF this]
  have loop: "sockets (release_loop ?n (logHeld t)) = drop ?n (sockets t)"
    "closeCalls (release_loop ?n (logHeld t)) = closeCalls t @ map sid (take ?n (sockets t))"
    by simp_all
  have h: "int (held (snd (release env pool (Some m) t))) = int (held t) - min m (int (held t))"
    using held_release_Some[of env pool m t] assms by simp
  from assms False loop h show ?thesis
    by (simp add: release_Some drop_map take_map)
qed

theorem release_effect_witness:
  "(0::int) \<le> 2
   \<and> fst (release (idle 0) (SocketPool Firefox) (Some 2)
        ((freshTab 0)\<lparr>sockets := [\<lparr>sid = 0, readyState = OPEN\<rparr>, \<lparr>sid = 1, readyState = OPEN\<rparr>,
           \<lparr>sid = 2, readyState = OPEN\<rparr>], created := 3\<rparr>)) = Some 2
   \<and> map sid (sockets (snd (release (idle 0) (SocketPool Firefox) (Some 2)
        ((freshTab 0)\<lparr>sockets := [\<lparr>sid = 0, readyState = OPEN\<rparr>, \<lparr>sid = 1, readyState = OPEN\<rparr>,
           \<lparr>sid = 2, readyState = OPEN\<rparr>], created := 3\<rparr>)))) = [2]
   \<and> closeCalls (snd (release (idle 0) (SocketPool Firefox) (Some 2)
        ((freshTab 0)\<lparr>sockets := [\<lparr>sid = 0, readyState = OPEN\<rparr>, \<lparr>sid = 1, readyState = OPEN\<rparr>,
           \<lparr>sid = 2, readyState = OPEN\<rparr>], created := 3\<rparr>))) = [0, 1]
   \<and> clock (snd (release (idle 0) (SocketPool Firefox) (Some 2)
        ((freshTab 0)\<lparr>sockets := [\<lparr>sid = 0, readyState = OPEN\<rparr>, \<lparr>sid = 1, readyState = OPEN\<rparr>,
           \<lparr>sid = 2, readyState = OPEN\<rparr>], created := 3\<rparr>))) = 50"
  using release_effect[where m=2 and env="idle 0" and pool="SocketPool Firefox" and t=
        "(freshTab 0)\<lparr>sockets := [\<lparr>sid = 0, readyState = OPEN\<rparr>, \<lparr>sid = 1, readyState = OPEN\<rparr>,
           \<lparr>sid = 2, readyState = OPEN\<rparr>], created := 3\<rparr>"]
  by (simp add: case_prod_beta held_def freshTab_def SocketPool_def constantsOf_def idle_def)

text \<open>
  With \<open>max = 0\<close> no timer is set and the clock has not advanced by the 50 ms of
  \<open>settlingTimeMs\<close> when \<open>release\<close> returns.
\<close>

theorem release_zero_counterexample:
  "timeouts (snd (release (idle 0) (SocketPool Firefox) (Some 0) (freshTab 0))) = timeouts (freshTab 0)
   \<and> \<not> clock (freshTab 0) + settlingTimeMs (SocketPool Firefox)
        \<le> clock (snd (release (idle 0) (SocketPool Firefox) (Some 0) (freshTab 0)))"
  by (simp add: release_Some SocketPool_def constantsOf_def)

lemma probe_eq:
  "probe env pool mx t =
     (fst (consume env pool mx t),
      snd (release env pool (Some (fst (consume env pool mx t))) (snd (consume env pool mx t))))"
  by (simp add: probe_def case_prod_beta)



lemma sockets_sleepMs_idle [simp]: "sockets (sleepMs (idle late) d t) = sockets t"
  by (simp add: idle_def)





lemma half_rat: "((of_nat h :: rat) < of_int m / 2) = (2 * int h < m)"
proof -
  have "((of_nat h :: rat) < of_int m / 2) = ((of_int (2 * int h) :: rat) < of_int m)"
    by (simp add: field_simps)
  also have "\<dots> = (2 * int h < m)" by (simp only: of_int_less_iff)
  finally show ?thesis .
qed


section \<open>Capacity\<close>

lemma sockets_consume:
  "sockets (snd (consume env pool mx t)) =
     filter (\<lambda>s. readyState s \<noteq> CLOSED)
       (deliver (sockets (consume_loop (iterations mx) (logHeld t)))
          (network env (timeouts t) (sockets (consume_loop (iterations mx) (logHeld t)))))"
  by (simp add: consume_eq consume_settled_def)

lemma held_release_le: "held (snd (release env pool mx t)) \<le> held t"
proof (cases mx)
  case None
  then show ?thesis by (simp add: release_def Let_def num2_def iterations_def)
next
  case (Some m)
  have "int (held (snd (release env pool (Some m) t))) \<le> int (held t)"
    by (simp add: held_release_Some)
  with Some show ?thesis by simp
qed

lemma bulkStep_capacity:
  assumes cap: "\<And>k socks. int (length (filter (\<lambda>socket. readyState socket \<noteq> CLOSED)
                    (deliver socks (network env k socks)))) \<le> maxSlots pool"
    and inv: "int (held t) \<le> maxSlots pool"
  shows "int (held (bulkStep env pool t b)) \<le> maxSlots pool"
proof (cases b)
  case (Consume mx)
  then show ?thesis using cap by (simp add: bulkStep_def held_def sockets_consume)
next
  case (Release mx)
  have "held (snd (release env pool mx t)) \<le> held t" by (rule held_release_le)
  with inv Release show ?thesis by (simp add: bulkStep_def)
qed

lemma bulkRun_capacity_from:
  assumes cap: "\<And>k socks. int (length (filter (\<lambda>socket. readyState socket \<noteq> CLOSED)
                    (deliver socks (network env k socks)))) \<le> maxSlots pool"
  shows "int (held t) \<le> maxSlots pool \<Longrightarrow> int (held (bulkRun env pool bs t)) \<le> maxSlots pool"
proof (induction bs arbitrary: t)
  case Nil
  then show ?case by (simp add: bulkRun_def)
next
  case (Cons b bs)
  have "int (held (bulkStep env pool t b)) \<le> maxSlots pool"
    using cap Cons.prems by (rule bulkStep_capacity)
  from Cons.IH[OF this] show ?case by (simp add: bulkRun_def)
qed

text \<open>
  C7, amended: the pool itself sets no limit on the held count; \<open>consume\<close> adds every
  socket it is asked for, and only the garbage collection takes closed ones out. If the
  browser leaves at most \<open>maxSlots\<close> sockets of the page unclosed whenever a timer fires,
  then after any finite sequence of bulk consume and release operations from an empty
  pool the held count is between 0 and \<open>maxSlots\<close>.
\<close>

theorem bulkRun_capacity:
  assumes "\<And>k socks. int (length (filter (\<lambda>socket. readyState socket \<noteq> CLOSED)
                    (deliver socks (network env k socks)))) \<le> maxSlots pool"
    and "sockets t = []"
  shows "0 \<le> int (held (bulkRun env pool bs t)) \<and> int (held (bulkRun env pool bs t)) \<le> maxSlots pool"
proof -
  have "0 \<le> maxSlots pool" using assms(1)[of "[]" 0] by simp
  then have "int (held t) \<le> maxSlots pool" using assms(2) by (simp add: held_def)
  with assms(1) have "int (held (bulkRun env pool bs t)) \<le> maxSlots pool"
    by (rule bulkRun_capacity_from)
  then show ?thesis by simp
qed

text \<open>The shared limit of \<open>pooled\<close> is such a browser.\<close>

lemma deliver_admit [simp]: "deliver socks (map readyState (admit free socks)) = admit free socks"
  by (induction socks arbitrary: free) simp_all

lemma admit_live: "length (filter (\<lambda>s. readyState s \<noteq> CLOSED) (admit free socks)) \<le> free"
proof (induction socks arbitrary: free)
  case Nil
  then show ?case by simp
next
  case (Cons s ss)
  show ?case
  proof (cases "readyState s = CLOSED")
    case True
    then show ?thesis using Cons.IH[of free] by simp
  next
    case False
    show ?thesis
    proof (cases "0 < free")
      case True
      with False Cons.IH[of "free - 1"] show ?thesis by simp
    next
      case False
      with \<open>readyState s \<noteq> CLOSED\<close> Cons.IH[of free] show ?thesis by simp
    qed
  qed
qed

lemma pooled_capped:
  "int (length (filter (\<lambda>socket. readyState socket \<noteq> CLOSED)
      (deliver socks (network (pooled cap others late) k socks)))) \<le> int (cap - others)"
  using admit_live[of "cap - others" socks] by (simp add: pooled_def)

theorem bulkRun_capacity_witness:
  "(\<forall>k socks. int (length (filter (\<lambda>socket. readyState socket \<noteq> CLOSED)
       (deliver socks (network (pooled 255 0 (\<lambda>k. 0)) k socks)))) \<le> maxSlots (SocketPool Chrome))
   \<and> sockets (freshTab 0) = []
   \<and> int (held (bulkRun (pooled 255 0 (\<lambda>k. 0)) (SocketPool Chrome)
         [Consume (Some 510), Release (Some 1), Consume (Some 7)] (freshTab 0))) \<le> 255"
proof -
  have cap: "\<And>k socks. int (length (filter (\<lambda>socket. readyState socket \<noteq> CLOSED)
       (deliver socks (network (pooled 255 0 (\<lambda>k. 0)) k socks)))) \<le> maxSlots (SocketPool Chrome)"
    using pooled_capped[of _ 255 0 "\<lambda>k. 0"] by (simp add: SocketPool_def constantsOf_def)
  have empty: "sockets (freshTab 0) = []" by (simp add: freshTab_def)
  from bulkRun_capacity[OF cap empty] cap empty show ?thesis
    by (simp add: SocketPool_def constantsOf_def)
qed

lemma deliver_unlimited:
  "deliver socks (network unlimited k socks) =
     map (\<lambda>s. if readyState s = CONNECTING then s\<lparr>readyState := OPEN\<rparr> else s) socks"
proof -
  have "\<And>f. deliver socks (map f socks) = map (\<lambda>s. s\<lparr>readyState := f s\<rparr>) socks"
    by (induction socks) simp_all
  then show ?thesis by (simp add: unlimited_def if_distrib cong: map_cong)
qed

lemma closed_after_unlimited:
  "length (filter (\<lambda>s. readyState s = CLOSED) (deliver socks (network unlimited k socks)))
     = length (filter (\<lambda>s. readyState s = CLOSED) socks)"
  unfolding deliver_unlimited by (induction socks) simp_all

lemma closedCount_settled_unlimited:
  "closedCount (consume_settled unlimited pool mx t) = closedCount t"
  by (simp add: closedCount_def consume_settled_def closed_after_unlimited consume_loop_sockets
      o_def)

lemma held_consume_unlimited:
  "closedCount t = 0 \<Longrightarrow> held (snd (consume unlimited pool mx t)) = held t + iterations mx"
  using held_consume[of unlimited pool mx t] by (simp add: closedCount_settled_unlimited)

text \<open>
  The command \<open>consume all\<close> is \<open>consume(pool, pool.maxSlots * 2)\<close>. When every
  connection is accepted, it takes an empty pool to 510 held sockets, above the 255 of
  \<open>maxSlots\<close>.
\<close>

theorem bulkRun_counterexample:
  "\<not> int (held (bulkRun unlimited (SocketPool Chrome)
         [Consume (Some (2 * maxSlots (SocketPool Chrome)))] (freshTab 0))) \<le> maxSlots (SocketPool Chrome)"
proof -
  have "closedCount (freshTab 0) = 0" by (simp add: closedCount_def freshTab_def)
  then have "held (snd (consume unlimited (SocketPool Chrome) (Some 510) (freshTab 0)))
      = held (freshTab 0) + iterations (Some 510)"
    by (rule held_consume_unlimited)
  then show ?thesis
    by (simp add: bulkRun_def bulkStep_def SocketPool_def constantsOf_def held_def freshTab_def
        iterations_def)
qed

section \<open>Timing\<close>

text \<open>The least multiple of \<open>b\<close> that is not below \<open>a\<close>.\<close>

lemma next_round:
  assumes "0 < (b::int)"
  shows "b dvd - (- a div b) * b"
    and "a \<le> - (- a div b) * b"
    and "b dvd m \<Longrightarrow> a \<le> m \<Longrightarrow> - (- a div b) * b \<le> m"
proof -
  let ?T = "- (- a div b) * b"
  show "b dvd ?T" by simp
  have "- a = (- a div b) * b + (- a) mod b" by simp
  moreover have "0 \<le> (- a) mod b" "(- a) mod b < b" using assms by simp_all
  ultimately have bounds: "a \<le> ?T" "?T < a + b" by linarith+
  show "a \<le> ?T" by (rule bounds)
  assume "b dvd m" and am: "a \<le> m"
  then obtain k where m: "m = b * k" by (auto simp: dvd_def)
  have "b * (- (- a div b) - 1) < b * k"
    using bounds(2) am unfolding m by (simp add: algebra_simps)
  then have "- (- a div b) - 1 < k" using assms by (simp add: mult_less_cancel_left_pos)
  then have "- (- a div b) \<le> k" by simp
  then have "b * (- (- a div b)) \<le> b * k" using assms by (intro mult_left_mono) simp_all
  then show "?T \<le> m" unfolding m by (simp add: mult.commute)
qed

lemma fst_sleepUntil:
  "fst (sleepUntil env timeMs t) = max (clock t) \<lfloor>timeMs\<rfloor> + int (lateness env (timeouts t))"
proof -
  have "\<lfloor>timeMs - of_int (clock t)\<rfloor> = \<lfloor>timeMs\<rfloor> - clock t" by simp
  then show ?thesis by (simp add: sleepUntil_def Let_def max_def)
qed

lemma fst_sleepUntilNextRoundInterval:
  "0 < interval \<Longrightarrow>
   fst (sleepUntilNextRoundInterval env interval t)
     = - (- clock t div interval) * interval + int (lateness env (timeouts t))"
  using next_round(2)[of interval "clock t"]
  by (simp add: sleepUntilNextRoundInterval_def fst_sleepUntil ceiling_divide_eq_div
      del: of_int_mult)

text \<open>
  C9, amended: in every cycle the page sleeps until the least multiple of
  \<open>(listSize + 1) * pulseMs\<close> that is not below the current time. The start time
  \<open>t0\<close> of the cycle is what \<open>sleepUntil\<close> returns, the clock read after the sleep:
  that multiple plus the lateness of the timer, and so the multiple itself only when
  the timer fires on time.
\<close>

theorem cycleStart_time:
  assumes "0 < pulseMs pool"
  shows "\<exists>target. (1 + int (listSize pool)) * pulseMs pool dvd target \<and> clock t \<le> target
           \<and> (\<forall>m. (1 + int (listSize pool)) * pulseMs pool dvd m \<longrightarrow> clock t \<le> m \<longrightarrow> target \<le> m)
           \<and> fst (cycleStart env pool t) = target + int (lateness env (timeouts t))"
proof -
  let ?b = "(1 + int (listSize pool)) * pulseMs pool"
  let ?T = "- (- clock t div ?b) * ?b"
  have b: "0 < ?b" using assms by simp
  have "fst (cycleStart env pool t) = ?T + int (lateness env (timeouts t))"
    using fst_sleepUntilNextRoundInterval[OF b, of env "logHeld t"]
    by (simp add: cycleStart_def)
  moreover have "?b dvd ?T" "clock t \<le> ?T" using next_round[OF b] by blast+
  moreover have "\<forall>m. ?b dvd m \<longrightarrow> clock t \<le> m \<longrightarrow> ?T \<le> m"
    using next_round(3)[OF b] by blast
  ultimately show ?thesis by blast
qed

theorem cycleStart_time_witness:
  "0 < pulseMs (SocketPool Chrome)
   \<and> fst (cycleStart (idle 0) (SocketPool Chrome) (freshTab 1000)) = 1200"
proof -
  have p: "0 < pulseMs (SocketPool Chrome)" by (simp add: SocketPool_def constantsOf_def)
  have b: "(1 + int (listSize (SocketPool Chrome))) * pulseMs (SocketPool Chrome) = 300"
    by (simp add: SocketPool_def constantsOf_def)
  have "\<exists>target. (300::int) dvd target \<and> 1000 \<le> target
           \<and> (\<forall>m. (300::int) dvd m \<longrightarrow> 1000 \<le> m \<longrightarrow> target \<le> m)
           \<and> fst (cycleStart (idle 0) (SocketPool Chrome) (freshTab 1000)) = target"
    using cycleStart_time[OF p, of "freshTab 1000" "idle 0"]
    by (simp add: b freshTab_def idle_def)
  then obtain target where t: "(300::int) dvd target" "1000 \<le> target"
      "\<forall>m. (300::int) dvd m \<longrightarrow> 1000 \<le> m \<longrightarrow> target \<le> m"
      and f: "fst (cycleStart (idle 0) (SocketPool Chrome) (freshTab 1000)) = target"
    by blast
  have "target \<le> 1200" using t(3) by simp
  with t(1,2) have "target = 1200" by presburger
  with p f show ?thesis by simp
qed

text \<open>
  With the Chrome constants the cycle lasts 300 ms. A page that schedules at time 1000
  and whose timer fires 3 ms late gets \<open>t0 = 1203\<close>, which is not a multiple of 300.
\<close>

theorem cycleStart_counterexample:
  "\<not> (1 + int (listSize (SocketPool Chrome))) * pulseMs (SocketPool Chrome)
       dvd fst (cycleStart (idle 3) (SocketPool Chrome) (freshTab 1000))"
proof -
  have b: "(1 + int (listSize (SocketPool Chrome))) * pulseMs (SocketPool Chrome) = 300"
    by (simp add: SocketPool_def constantsOf_def)
  have "fst (cycleStart (idle 3) (SocketPool Chrome) (freshTab 1000)) = 1203"
    by (simp add: cycleStart_def fst_sleepUntilNextRoundInterval b)
       (simp add: freshTab_def idle_def)
  then show ?thesis by (simp add: b)
qed


text \<open>Every bulk operation starts by logging a sample.\<close>

lemma trace_consume_loop: "\<exists>rest. trace (consume_loop n t) = trace t @ rest"
proof (induction n arbitrary: t)
  case 0
  then show ?case by simp
next
  case (Suc n)
  from Suc.IH[of "logHeld (consumeOne t)"] obtain rest
    where "trace (consume_loop n (logHeld (consumeOne t))) = trace (logHeld (consumeOne t)) @ rest"
    by blast
  then show ?case by (simp add: consumeOne_def)
qed

lemma trace_release_loop: "\<exists>rest. trace (release_loop n t) = trace t @ rest"
proof (induction n arbitrary: t)
  case 0
  then show ?case by simp
next
  case (Suc n)
  from Suc.IH[of "logHeld (releaseOne t)"] obtain rest
    where "trace (release_loop n (logHeld (releaseOne t))) = trace (logHeld (releaseOne t)) @ rest"
    by blast
  then show ?case by (simp add: releaseOne_def split: list.splits)
qed

lemma trace_consume:
  "\<exists>rest. trace (snd (consume env pool mx t)) = trace t @ (clock t, held t) # rest"
proof -
  from trace_consume_loop[of "iterations mx" "logHeld t"] obtain rest
    where "trace (consume_loop (iterations mx) (logHeld t)) = trace (logHeld t) @ rest" by blast
  then show ?thesis by (simp add: consume_eq consume_settled_def)
qed

lemma trace_release:
  "\<exists>rest. trace (snd (release env pool mx t)) = trace t @ (clock t, held t) # rest"
proof -
  from trace_release_loop[of "iterations (num2 min mx (Some (int (held t))))" "logHeld t"] obtain rest
    where "trace (release_loop (iterations (num2 min mx (Some (int (held t))))) (logHeld t))
           = trace (logHeld t) @ rest" by blast
  then show ?thesis by (simp add: release_def Let_def)
qed

lemma trace_probe:
  "\<exists>rest. trace (snd (probe env pool mx t)) = trace t @ (clock t, held t) # rest"
proof -
  obtain r1 where r1: "trace (snd (consume env pool mx t)) = trace t @ (clock t, held t) # r1"
    using trace_consume by blast
  obtain r2 where "trace (snd (probe env pool mx t)) = trace (snd (consume env pool mx t)) @ r2"
    using trace_release[of env pool "Some (fst (consume env pool mx t))" "snd (consume env pool mx t)"]
    by (auto simp: probe_eq)
  with r1 show ?thesis by simp
qed

lemma receiveInteger_pulse_eq:
  "receiveInteger_pulse env pool startTime i t =
     (fst (probe env pool (Some (maxValue pool))
        (snd (sleepUntil env (startTime + (of_nat i + 5 / 4) * of_int (pulseMs pool)) t))) - 1,
      snd (probe env pool (Some (maxValue pool))
        (snd (sleepUntil env (startTime + (of_nat i + 5 / 4) * of_int (pulseMs pool)) t))))"
  by (simp add: receiveInteger_pulse_def case_prod_beta)

lemma snd_sleepUntil: "snd (sleepUntil env timeMs t) = sleepMs env (timeMs - of_int (clock t)) t"
  by (simp add: sleepUntil_def Let_def)

lemma clock_sleepUntil:
  "clock (snd (sleepUntil env timeMs t)) = max (clock t) \<lfloor>timeMs\<rfloor> + int (lateness env (timeouts t))"
  using fst_sleepUntil[of env timeMs t] by (simp add: sleepUntil_def Let_def)

text \<open>
  C3, amended: for every pulse index \<open>i\<close> the receiver suspends until
  \<open>startTime + (i + 1.25) * pulseMs\<close>, a quarter pulse after the boundary
  \<open>startTime + (i + 1) * pulseMs\<close> at which the transmitter adjusts, then issues
  \<open>probe maxValue\<close> and pushes the probe result minus 1. The first sample the probe
  logs carries the time of waking: the target in whole milliseconds (or the current
  time, if that is later) plus the lateness of the timer.
\<close>

theorem receiveInteger_pulse_time:
  "(\<exists>rest. trace (snd (receiveInteger_pulse env pool startTime i t)) =
       trace t @ (max (clock t) \<lfloor>startTime + (of_nat i + 5 / 4) * of_int (pulseMs pool)\<rfloor>
                    + int (lateness env (timeouts t)), held t) # rest)
   \<and> fst (receiveInteger_pulse env pool startTime i t) =
       fst (probe env pool (Some (maxValue pool))
         (snd (sleepUntil env (startTime + (of_nat i + 5 / 4) * of_int (pulseMs pool)) t))) - 1"
proof -
  let ?t1 = "snd (sleepUntil env (startTime + (of_nat i + 5 / 4) * of_int (pulseMs pool)) t)"
  obtain rest where "trace (snd (probe env pool (Some (maxValue pool)) ?t1))
      = trace ?t1 @ (clock ?t1, held ?t1) # rest"
    using trace_probe by blast
  moreover have "trace ?t1 = trace t" "held ?t1 = held t" by (simp_all add: snd_sleepUntil)
  ultimately show ?thesis
    by (simp add: receiveInteger_pulse_eq clock_sleepUntil)
qed

text \<open>
  With the Chrome constants, a start time 0 and timers that fire on time, the probe of
  pulse 0 is issued at 62 ms (62.5 in whole milliseconds), not at the 12 ms of
  \<open>startTime + (0 + 0.25) * pulseMs\<close>.
\<close>

theorem receiveInteger_pulse_counterexample:
  "fst (hd (trace (snd (receiveInteger_pulse (idle 0) (SocketPool Chrome) 0 0 (freshTab 0))))) = 62
   \<and> \<lfloor>(0::rat) + (of_nat 0 + 1 / 4) * of_int (pulseMs (SocketPool Chrome))\<rfloor> = 12"
proof -
  let ?t1 = "snd (sleepUntil (idle 0) ((0::rat) + (of_nat 0 + 5 / 4) * of_int (pulseMs (SocketPool Chrome)))
                (freshTab 0))"
  obtain rest where "trace (snd (probe (idle 0) (SocketPool Chrome) (Some (maxValue (SocketPool Chrome))) ?t1))
      = trace ?t1 @ (clock ?t1, held ?t1) # rest"
    using trace_probe by blast
  moreover have "trace ?t1 = []" by (simp add: snd_sleepUntil freshTab_def)
  moreover have "clock ?t1 = 62"
    by (simp add: clock_sleepUntil)
       (simp add: SocketPool_def constantsOf_def freshTab_def idle_def floor_eq_iff)
  ultimately have "fst (hd (trace (snd (receiveInteger_pulse (idle 0) (SocketPool Chrome) 0 0 (freshTab 0))))) = 62"
    by (simp add: receiveInteger_pulse_eq)
  moreover have "\<lfloor>(0::rat) + (of_nat 0 + 1 / 4) * of_int (pulseMs (SocketPool Chrome))\<rfloor> = 12"
    by (simp add: SocketPool_def constantsOf_def floor_eq_iff)
  ultimately show ?thesis by simp
qed

section \<open>Two pages under one limit\<close>

text \<open>
  Under the shared limit, a page whose sockets are all open and within its share keeps
  them while it sleeps; of the sockets it requests, those within the share open and the
  others are pruned.
\<close>

lemma admit_open_prefix:
  "list_all (\<lambda>s. readyState s = OPEN) xs \<Longrightarrow> length xs \<le> free \<Longrightarrow>
   admit free (xs @ ys) = xs @ admit (free - length xs) ys"
proof (induction xs arbitrary: free)
  case Nil
  then show ?case by simp
next
  case (Cons x xs)
  then have "length xs \<le> free - 1" "0 < free" "list_all (\<lambda>s. readyState s = OPEN) xs" by simp_all
  with Cons.IH[of "free - 1"] Cons.prems show ?case by simp
qed

lemma admit_connecting:
  "list_all (\<lambda>s. readyState s = CONNECTING) ys \<Longrightarrow>
   filter (\<lambda>s. readyState s \<noteq> CLOSED) (admit free ys)
     = map (\<lambda>s. s\<lparr>readyState := OPEN\<rparr>) (take free ys)"
proof (induction ys arbitrary: free)
  case Nil
  then show ?case by simp
next
  case (Cons y ys)
  show ?case
  proof (cases free)
    case 0
    with Cons.prems Cons.IH[of 0] show ?thesis by simp
  next
    case (Suc k)
    with Cons.prems Cons.IH[of k] show ?thesis by simp
  qed
qed

lemma quiet_same: "sockets a = sockets b \<Longrightarrow> quiet a = quiet b"
  by (simp add: quiet_def)

lemma held_same: "sockets a = sockets b \<Longrightarrow> held a = held b"
  by (simp add: held_def)

lemma sockets_sleepMs_pooled:
  assumes "quiet t" and "held t \<le> cap - others"
  shows "sockets (sleepMs (pooled cap others late) d t) = sockets t"
  using admit_open_prefix[of "sockets t" "cap - others" "[]"] assms
  by (simp add: pooled_def quiet_def held_def)

lemma consume_pooled:
  assumes "quiet t" and "held t \<le> cap - others"
  shows "sockets (snd (consume (pooled cap others late) pool mx t)) =
           sockets t @ map (\<lambda>s. s\<lparr>readyState := OPEN\<rparr>)
             (take (cap - others - held t)
                (map (\<lambda>j. \<lparr>sid = created t + j, readyState = CONNECTING\<rparr>) [0..<iterations mx]))"
proof -
  let ?news = "map (\<lambda>j. \<lparr>sid = created t + j, readyState = CONNECTING\<rparr>) [0..<iterations mx]"
  have fresh: "list_all (\<lambda>s. readyState s = CONNECTING) ?news" by (simp add: list_all_iff)
  have "sockets (snd (consume (pooled cap others late) pool mx t))
      = filter (\<lambda>s. readyState s \<noteq> CLOSED) (admit (cap - others) (sockets t @ ?news))"
    by (simp add: sockets_consume consume_loop_sockets pooled_def)
  also have "admit (cap - others) (sockets t @ ?news)
      = sockets t @ admit (cap - others - held t) ?news"
    using admit_open_prefix[of "sockets t" "cap - others" ?news] assms
    by (simp add: quiet_def held_def)
  also have "filter (\<lambda>s. readyState s \<noteq> CLOSED) (sockets t @ admit (cap - others - held t) ?news)
      = sockets t @ filter (\<lambda>s. readyState s \<noteq> CLOSED) (admit (cap - others - held t) ?news)"
    using assms(1) by (simp add: quiet_def list_all_iff)
  also have "filter (\<lambda>s. readyState s \<noteq> CLOSED) (admit (cap - others - held t) ?news)
      = map (\<lambda>s. s\<lparr>readyState := OPEN\<rparr>) (take (cap - others - held t) ?news)"
    using fresh by (rule admit_connecting)
  finally show ?thesis .
qed

lemma consume_pooled_held:
  assumes "quiet t" and "held t \<le> cap - others"
  shows "quiet (snd (consume (pooled cap others late) pool mx t))"
    and "held (snd (consume (pooled cap others late) pool mx t))
           = held t + min (iterations mx) (cap - others - held t)"
    and "fst (consume (pooled cap others late) pool mx t)
           = int (min (iterations mx) (cap - others - held t))"
proof -
  let ?t' = "snd (consume (pooled cap others late) pool mx t)"
  note s = consume_pooled[OF assms, of late pool mx]
  show "quiet ?t'" using assms(1) by (simp add: quiet_def s list_all_iff) (auto dest: in_set_takeD)
  show h: "held ?t' = held t + min (iterations mx) (cap - others - held t)"
    by (simp add: held_def s)
  have "fst (consume (pooled cap others late) pool mx t) = int (held ?t') - int (held t)"
    by (simp add: consume_eq)
  with h show "fst (consume (pooled cap others late) pool mx t)
           = int (min (iterations mx) (cap - others - held t))" by simp
qed

lemma release_pooled:
  assumes "quiet t" and "held t \<le> cap - others"
  shows "sockets (snd (release (pooled cap others late) pool (Some m) t))
           = drop (nat (min m (int (held t)))) (sockets t)"
proof (cases "m = 0")
  case True
  then show ?thesis by (simp add: release_Some)
next
  case False
  let ?n = "nat (min m (int (held t)))"
  let ?t1 = "release_loop ?n (logHeld t)"
  have "?n \<le> held (logHeld t)" by simp
  from release_loop_within[OF this] have loop: "sockets ?t1 = drop ?n (sockets t)" by simp
  have "quiet ?t1" using assms(1) by (auto simp: quiet_def loop list_all_iff dest: in_set_dropD)
  moreover have "held ?t1 \<le> cap - others"
  proof -
    have "held ?t1 = length (drop ?n (sockets t))" by (simp only: held_def[of ?t1] loop)
    then have "held ?t1 \<le> held t" by (simp add: held_def)
    with assms(2) show ?thesis by linarith
  qed
  ultimately have "sockets (sleepMs (pooled cap others late) (of_int (settlingTimeMs pool)) ?t1)
      = sockets ?t1" by (rule sockets_sleepMs_pooled)
  with False loop show ?thesis by (simp add: release_Some del: sleepMs_fields(1))
qed

lemma release_pooled_held:
  assumes "quiet t" and "held t \<le> cap - others"
  shows "quiet (snd (release (pooled cap others late) pool (Some m) t))"
    and "held (snd (release (pooled cap others late) pool (Some m) t))
           = held t - nat (min m (int (held t)))"
proof -
  note s = release_pooled[OF assms, of late pool m]
  show "quiet (snd (release (pooled cap others late) pool (Some m) t))"
    using assms(1) by (auto simp: quiet_def s list_all_iff dest: in_set_dropD)
  show "held (snd (release (pooled cap others late) pool (Some m) t))
           = held t - nat (min m (int (held t)))"
    by (simp add: held_def s)
qed

lemma sockets_sleepUntil_pooled:
  assumes "quiet t" and "held t \<le> cap - others"
  shows "sockets (snd (sleepUntil (pooled cap others late) timeMs t)) = sockets t"
  using sockets_sleepMs_pooled[OF assms] by (simp add: snd_sleepUntil del: sleepMs_fields(1))

lemma num2_Some [simp]: "num2 f (Some x) (Some y) = Some (f x y)"
  by (simp add: num2_def)

text \<open>
  The sender's round: whatever the browser and the previous target \<open>l\<close>, the sender
  ends with \<open>maxSlots - (d + 1)\<close> sockets, so that \<open>d + 1\<close> slots are free.
\<close>

lemma sendInteger_pulse_pooled:
  assumes q: "quiet s" and M: "maxSlots pool = int cap"
    and h: "int (held s) = maxSlots pool - l" and l0: "0 \<le> l"
    and d: "at_index list i = Some d" and d0: "0 \<le> d" and dM: "d + 1 \<le> maxSlots pool"
  shows "fst (sendInteger_pulse (pooled cap 0 late) kBrowser pool startTime list i (Some l) s)
           = Some (d + 1)"
    and "quiet (snd (sendInteger_pulse (pooled cap 0 late) kBrowser pool startTime list i (Some l) s))"
    and "int (held (snd (sendInteger_pulse (pooled cap 0 late) kBrowser pool startTime list i (Some l) s)))
           = maxSlots pool - (d + 1)"
proof -
  let ?env = "pooled cap 0 late"
  let ?t1 = "snd (sleepUntil ?env (startTime + (of_nat i + 1) * of_int (pulseMs pool)) s)"
  have hs: "held s \<le> cap - 0" using M h l0 by simp
  have s1: "sockets ?t1 = sockets s" using q hs by (rule sockets_sleepUntil_pooled)
  have q1: "quiet ?t1" using q quiet_same[OF s1] by simp
  have h1: "held ?t1 = held s" using held_same[OF s1] .
  have hs1: "held ?t1 \<le> cap - 0" using hs h1 by simp
  have integer: "num2 (+) (Some 1) (at_index list i) = Some (d + 1)" by (simp add: d)
  show "fst (sendInteger_pulse ?env kBrowser pool startTime list i (Some l) s) = Some (d + 1)"
    by (simp add: sendInteger_pulse_def case_prod_beta Let_def integer)
  have fire:
    "quiet (snd (release ?env pool (Some (d + 1)) (snd (consume ?env pool (Some (l + 5)) ?t1))))
     \<and> int (held (snd (release ?env pool (Some (d + 1)) (snd (consume ?env pool (Some (l + 5)) ?t1)))))
         = maxSlots pool - (d + 1)"
  proof -
    let ?t2 = "snd (consume ?env pool (Some (l + 5)) ?t1)"
    have q2: "quiet ?t2" using q1 hs1 by (rule consume_pooled_held(1))
    have "held ?t2 = held ?t1 + min (iterations (Some (l + 5))) (cap - 0 - held ?t1)"
      using q1 hs1 by (rule consume_pooled_held(2))
    then have h2: "int (held ?t2) = maxSlots pool" using M h h1 l0 by (simp add: iterations_def)
    then have hs2: "held ?t2 \<le> cap - 0" using M by simp
    have "quiet (snd (release ?env pool (Some (d + 1)) ?t2))"
      using q2 hs2 by (rule release_pooled_held(1))
    moreover have "held (snd (release ?env pool (Some (d + 1)) ?t2))
          = held ?t2 - nat (min (d + 1) (int (held ?t2)))"
      using q2 hs2 by (rule release_pooled_held(2))
    then have "int (held (snd (release ?env pool (Some (d + 1)) ?t2))) = maxSlots pool - (d + 1)"
      using h2 d0 dM by simp
    ultimately show ?thesis by simp
  qed
  have down:
    "0 < d + 1 - l \<Longrightarrow>
     quiet (snd (release ?env pool (Some (d + 1 - l)) ?t1))
     \<and> int (held (snd (release ?env pool (Some (d + 1 - l)) ?t1))) = maxSlots pool - (d + 1)"
  proof -
    assume pos: "0 < d + 1 - l"
    have "quiet (snd (release ?env pool (Some (d + 1 - l)) ?t1))"
      using q1 hs1 by (rule release_pooled_held(1))
    moreover have "held (snd (release ?env pool (Some (d + 1 - l)) ?t1))
          = held ?t1 - nat (min (d + 1 - l) (int (held ?t1)))"
      using q1 hs1 by (rule release_pooled_held(2))
    then have "int (held (snd (release ?env pool (Some (d + 1 - l)) ?t1))) = maxSlots pool - (d + 1)"
      using h h1 pos dM by simp
    ultimately show ?thesis by simp
  qed
  have up:
    "\<not> 0 < d + 1 - l \<Longrightarrow>
     quiet (snd (consume ?env pool (Some (0 - (d + 1 - l))) ?t1))
     \<and> int (held (snd (consume ?env pool (Some (0 - (d + 1 - l))) ?t1))) = maxSlots pool - (d + 1)"
  proof -
    assume neg: "\<not> 0 < d + 1 - l"
    have "quiet (snd (consume ?env pool (Some (0 - (d + 1 - l))) ?t1))"
      using q1 hs1 by (rule consume_pooled_held(1))
    moreover have "held (snd (consume ?env pool (Some (0 - (d + 1 - l))) ?t1))
          = held ?t1 + min (iterations (Some (0 - (d + 1 - l)))) (cap - 0 - held ?t1)"
      using q1 hs1 by (rule consume_pooled_held(2))
    then have "int (held (snd (consume ?env pool (Some (0 - (d + 1 - l))) ?t1))) = maxSlots pool - (d + 1)"
      using h h1 M neg d0 by (simp add: iterations_def)
    ultimately show ?thesis by simp
  qed
  have both:
    "quiet (snd (sendInteger_pulse ?env kBrowser pool startTime list i (Some l) s))
     \<and> int (held (snd (sendInteger_pulse ?env kBrowser pool startTime list i (Some l) s)))
           = maxSlots pool - (d + 1)"
  proof (cases "kBrowser = Firefox")
    case True
    with fire show ?thesis
      by (simp add: sendInteger_pulse_def case_prod_beta Let_def integer)
  next
    case False
    show ?thesis
    proof (cases "0 < d + 1 - l")
      case True
      with down False show ?thesis
        by (simp add: sendInteger_pulse_def case_prod_beta Let_def integer positive_def)
    next
      case neg: False
      with up False show ?thesis
        by (simp add: sendInteger_pulse_def case_prod_beta Let_def integer positive_def)
    qed
  qed
  from both show "quiet (snd (sendInteger_pulse ?env kBrowser pool startTime list i (Some l) s))" ..
  from both show "int (held (snd (sendInteger_pulse ?env kBrowser pool startTime list i (Some l) s)))
           = maxSlots pool - (d + 1)" ..
qed

text \<open>The receiver's round: with \<open>d + 1\<close> slots free, the probe returns \<open>d + 1\<close>.\<close>

lemma receiveInteger_pulse_pooled:
  assumes e: "sockets r = []" and L: "int (cap - others) = d + 1" and dV: "d + 1 \<le> maxValue pool"
  shows "fst (receiveInteger_pulse (pooled cap others late) pool startTime i r) = d"
    and "sockets (snd (receiveInteger_pulse (pooled cap others late) pool startTime i r)) = []"
proof -
  let ?env = "pooled cap others late"
  let ?t1 = "snd (sleepUntil ?env (startTime + (of_nat i + 5 / 4) * of_int (pulseMs pool)) r)"
  have s1: "sockets ?t1 = []" using e by (simp add: snd_sleepUntil)
  have q1: "quiet ?t1" by (simp add: quiet_def s1)
  have h1: "held ?t1 = 0" by (simp add: held_def s1)
  have hs1: "held ?t1 \<le> cap - others" by (simp add: h1)
  let ?t2 = "snd (consume ?env pool (Some (maxValue pool)) ?t1)"
  have q2: "quiet ?t2" using q1 hs1 by (rule consume_pooled_held(1))
  have "held ?t2 = held ?t1 + min (iterations (Some (maxValue pool))) (cap - others - held ?t1)"
    using q1 hs1 by (rule consume_pooled_held(2))
  then have h2: "int (held ?t2) = d + 1" using L dV h1 by (simp add: iterations_def)
  then have hs2: "held ?t2 \<le> cap - others" using L by simp
  have c: "fst (consume ?env pool (Some (maxValue pool)) ?t1) = d + 1"
    using h2 h1 by (simp add: consume_eq)
  have "held (snd (release ?env pool (Some (d + 1)) ?t2)) = held ?t2 - nat (min (d + 1) (int (held ?t2)))"
    using q2 hs2 by (rule release_pooled_held(2))
  then have "held (snd (release ?env pool (Some (d + 1)) ?t2)) = 0" using h2 by simp
  then have r3: "sockets (snd (release ?env pool (Some (d + 1)) ?t2)) = []" by (simp add: held_def)
  show "fst (receiveInteger_pulse ?env pool startTime i r) = d"
    by (simp add: receiveInteger_pulse_eq probe_eq c)
  show "sockets (snd (receiveInteger_pulse ?env pool startTime i r)) = []"
    using r3 by (simp add: receiveInteger_pulse_eq probe_eq c)
qed

lemma exchange_from:
  assumes M: "maxSlots pool = int cap" and VM: "maxValue pool \<le> maxSlots pool"
    and ds: "list_all (\<lambda>d. 0 \<le> d \<and> d < maxValue pool) ds"
  shows "i + n = length ds \<Longrightarrow> quiet s \<Longrightarrow> int (held s) = maxSlots pool - l \<Longrightarrow> 0 \<le> l
     \<Longrightarrow> sockets r = [] \<Longrightarrow>
     fst (exchange kBrowser pool cap late startTime (map Some ds) n i (Some l) s r)
       = map (\<lambda>d. (nat (maxSlots pool - (d + 1)), d)) (drop i ds)
     \<and> fst (snd (exchange kBrowser pool cap late startTime (map Some ds) n i (Some l) s r))
       = sendInteger_loop (pooled cap 0 late) kBrowser pool startTime (map Some ds) n i (Some l) s
     \<and> sockets (snd (snd (exchange kBrowser pool cap late startTime (map Some ds) n i (Some l) s r))) = []"
proof (induction n arbitrary: i l s r)
  case 0
  then show ?case by simp
next
  case (Suc n)
  let ?d = "ds ! i"
  have i: "i < length ds" using Suc.prems(1) by simp
  then have "?d \<in> set ds" by simp
  with ds have d0: "0 \<le> ?d" and dV: "?d + 1 \<le> maxValue pool" by (auto simp: list_all_iff)
  have dM: "?d + 1 \<le> maxSlots pool" using dV VM by simp
  have at: "at_index (map Some ds) i = Some ?d" using i by (simp add: at_index_def)
  have hr: "held r = 0" using Suc.prems(5) by (simp add: held_def)
  let ?send = "sendInteger_pulse (pooled cap 0 late) kBrowser pool startTime (map Some ds) i (Some l) s"
  note S = sendInteger_pulse_pooled[OF Suc.prems(2) M Suc.prems(3) Suc.prems(4) at d0 dM,
      of late kBrowser startTime]
  have hs': "int (held (snd ?send)) = maxSlots pool - (?d + 1)" by (rule S(3))
  then have L: "int (cap - held (snd ?send)) = ?d + 1" using M d0 by simp
  let ?recv = "receiveInteger_pulse (pooled cap (held (snd ?send)) late) pool startTime i r"
  note R = receiveInteger_pulse_pooled[OF Suc.prems(5) L dV, of late startTime i]
  have next_i: "Suc i + n = length ds" using Suc.prems(1) by simp
  have l': "0 \<le> ?d + 1" using d0 by simp
  note IH = Suc.IH[OF next_i S(2) hs' l' R(2)]
  have dr: "drop i ds = ?d # drop (Suc i) ds" using i by (simp add: Cons_nth_drop_Suc)
  have hn: "held (snd ?send) = nat (maxSlots pool - (?d + 1))" using hs' by linarith
  show ?case
    using IH by (simp add: hr case_prod_beta Let_def S(1) R(1) hn[symmetric] dr)
qed

text \<open>
  C1, amended: let the browser's limit be \<open>maxSlots\<close>, shared by a sender and a
  receiver page and by nobody else, with every socket settled when a timer fires and
  with rounds that do not overlap. Then for every pulse index \<open>i\<close> and every digit
  \<open>d = digit[i]\<close> in \<open>[0, maxValue - 1]\<close>, after the transmitter's adjustment for
  pulse \<open>i\<close> the number of slots it leaves free is \<open>d + 1\<close>, that is, its held count
  is \<open>maxSlots - (d + 1)\<close>; the receiver's \<open>probe maxValue\<close> in that pulse returns
  \<open>d + 1\<close>, and the value it pushes, the probe result minus 1, is \<open>d\<close>. The sender
  starts as the first statement of \<open>sendInteger\<close> leaves it, holding \<open>maxSlots\<close>,
  and over the pulses it goes through the states of the loop of \<open>sendInteger\<close>.
\<close>

theorem exchange_digits:
  assumes "maxSlots pool = int cap" and "maxValue pool \<le> maxSlots pool"
    and "list_all (\<lambda>d. 0 \<le> d \<and> d < maxValue pool) ds"
    and "quiet sender" and "int (held sender) = maxSlots pool" and "sockets receiver = []"
  shows "fst (exchange kBrowser pool cap late startTime (map Some ds) (length ds) 0 (Some 0)
               sender receiver)
           = map (\<lambda>d. (nat (maxSlots pool - (d + 1)), d)) ds
       \<and> fst (snd (exchange kBrowser pool cap late startTime (map Some ds) (length ds) 0 (Some 0)
               sender receiver))
           = sendInteger_loop (pooled cap 0 late) kBrowser pool startTime (map Some ds)
               (length ds) 0 (Some 0) sender"
  using exchange_from[OF assms(1,2,3), of 0 "length ds" sender 0 receiver kBrowser late startTime]
    assms(4,5,6)
  by simp

text \<open>The first statement of \<open>sendInteger\<close> fills the pool up to the limit.\<close>

lemma sendInteger_start_pooled:
  assumes "quiet t" and "int (held t) \<le> maxSlots pool" and "maxSlots pool = int cap"
  shows "quiet (snd (consume (pooled cap 0 late) pool (Some (maxSlots pool - int (held t))) t))"
    and "int (held (snd (consume (pooled cap 0 late) pool (Some (maxSlots pool - int (held t))) t)))
           = maxSlots pool"
proof -
  have hs: "held t \<le> cap - 0" using assms(2,3) by simp
  show "quiet (snd (consume (pooled cap 0 late) pool (Some (maxSlots pool - int (held t))) t))"
    using assms(1) hs by (rule consume_pooled_held(1))
  have "held (snd (consume (pooled cap 0 late) pool (Some (maxSlots pool - int (held t))) t))
      = held t + min (iterations (Some (maxSlots pool - int (held t)))) (cap - 0 - held t)"
    using assms(1) hs by (rule consume_pooled_held(2))
  then show "int (held (snd (consume (pooled cap 0 late) pool (Some (maxSlots pool - int (held t))) t)))
           = maxSlots pool"
    using assms(2,3) by (simp add: iterations_def)
qed

lemma chrome_constants:
  "maxSlots (SocketPool Chrome) = 255" "maxValue (SocketPool Chrome) = 128"
  "listSize (SocketPool Chrome) = 5" "pulseMs (SocketPool Chrome) = 50"
  "settlingTimeMs (SocketPool Chrome) = 0"
  by (simp_all add: SocketPool_def constantsOf_def)

lemma freshTab_quiet: "quiet (freshTab now)" "held (freshTab now) = 0" "sockets (freshTab now) = []"
  by (simp_all add: quiet_def held_def freshTab_def)

theorem exchange_digits_witness:
  "maxSlots (SocketPool Chrome) = int 255
   \<and> maxValue (SocketPool Chrome) \<le> maxSlots (SocketPool Chrome)
   \<and> list_all (\<lambda>d. 0 \<le> d \<and> d < maxValue (SocketPool Chrome)) [44, 2, 0, 127, 0]
   \<and> quiet (snd (consume (pooled 255 0 (\<lambda>k. 0)) (SocketPool Chrome)
               (Some (maxSlots (SocketPool Chrome) - int (held (freshTab 0)))) (freshTab 0)))
   \<and> int (held (snd (consume (pooled 255 0 (\<lambda>k. 0)) (SocketPool Chrome)
               (Some (maxSlots (SocketPool Chrome) - int (held (freshTab 0)))) (freshTab 0))))
       = maxSlots (SocketPool Chrome)
   \<and> sockets (freshTab 0) = []
   \<and> fst (exchange Chrome (SocketPool Chrome) 255 (\<lambda>k. 0) 0 (map Some [44, 2, 0, 127, 0])
            (length [44, 2, 0, 127, 0 :: int]) 0 (Some 0)
            (snd (consume (pooled 255 0 (\<lambda>k. 0)) (SocketPool Chrome)
               (Some (maxSlots (SocketPool Chrome) - int (held (freshTab 0)))) (freshTab 0)))
            (freshTab 0))
       = [(210, 44), (252, 2), (254, 0), (127, 127), (254, 0)]"
proof -
  have M: "maxSlots (SocketPool Chrome) = int 255" by (simp add: chrome_constants)
  have VM: "maxValue (SocketPool Chrome) \<le> maxSlots (SocketPool Chrome)"
    by (simp add: chrome_constants)
  have ds: "list_all (\<lambda>d. 0 \<le> d \<and> d < maxValue (SocketPool Chrome)) [44, 2, 0, 127, 0]"
    by (simp add: chrome_constants)
  have "int (held (freshTab 0)) \<le> maxSlots (SocketPool Chrome)"
    by (simp add: chrome_constants freshTab_quiet)
  note start = sendInteger_start_pooled[OF freshTab_quiet(1) this M, of "\<lambda>k. 0"]
  note r = freshTab_quiet(3)[of 0]
  from exchange_digits[OF M VM ds start r, of Chrome "\<lambda>k. 0" 0] M VM ds start r
  show ?thesis by (simp add: chrome_constants)
qed

text \<open>
  With the Chrome constants and the payload 0, every digit is 0. After the adjustment
  for pulse 0 the sender holds 254 sockets, not \<open>0 + 1\<close>: it is the number of free
  slots that is 1.
\<close>

theorem exchange_counterexample:
  "fst (hd (fst (exchange Chrome (SocketPool Chrome) 255 (\<lambda>k. 0) 0 (map Some [0, 0, 0, 0, 0])
            5 0 (Some 0)
            (snd (consume (pooled 255 0 (\<lambda>k. 0)) (SocketPool Chrome)
               (Some (maxSlots (SocketPool Chrome) - int (held (freshTab 0)))) (freshTab 0)))
            (freshTab 0)))) = 254
   \<and> (254::nat) \<noteq> 0 + 1"
proof -
  have M: "maxSlots (SocketPool Chrome) = int 255" by (simp add: chrome_constants)
  have VM: "maxValue (SocketPool Chrome) \<le> maxSlots (SocketPool Chrome)"
    by (simp add: chrome_constants)
  have ds: "list_all (\<lambda>d. 0 \<le> d \<and> d < maxValue (SocketPool Chrome)) [0, 0, 0, 0, 0]"
    by (simp add: chrome_constants)
  have "int (held (freshTab 0)) \<le> maxSlots (SocketPool Chrome)"
    by (simp add: chrome_constants freshTab_quiet)
  note start = sendInteger_start_pooled[OF freshTab_quiet(1) this M, of "\<lambda>k. 0"]
  have five: "0 + 5 = length [0, 0, 0, 0, 0 :: int]" by simp
  have zero: "int (held (snd (consume (pooled 255 0 (\<lambda>k. 0)) (SocketPool Chrome)
               (Some (maxSlots (SocketPool Chrome) - int (held (freshTab 0)))) (freshTab 0))))
        = maxSlots (SocketPool Chrome) - 0" using start(2) by simp
  from exchange_from[OF M VM ds five start(1) zero _ freshTab_quiet(3), of Chrome "\<lambda>k. 0" 0]
  show ?thesis by (simp add: chrome_constants)
qed

text \<open>
  End to end: the values the receiver pushes decode to the payload the sender encoded,
  so both pages report the same hexadecimal string.
\<close>

lemma digits_in_range:
  assumes "1 \<le> (m::int)" and "0 \<le> x"
  shows "list_all (\<lambda>d. 0 \<le> d \<and> d < m) (map (\<lambda>k. (x div m ^ k) mod m) [0..<n])"
  using assms by (simp add: list_all_iff)

lemma exchange_payload:
  assumes M: "maxSlots pool = int cap" and VM: "maxValue pool \<le> maxSlots pool"
    and V: "1 \<le> maxValue pool" and x0: "0 \<le> x" and x: "x < maxValue pool ^ listSize pool"
    and q: "quiet sender" and h: "int (held sender) = maxSlots pool" and r: "sockets receiver = []"
  shows "listToBigInteger
           (map Some (map snd (fst (exchange kBrowser pool cap late startTime
              (bigIntegerToList (Some x) (listSize pool) (Some (maxValue pool)))
              (listSize pool) 0 (Some 0) sender receiver))))
           (listSize pool) (Some (maxValue pool)) = Some x"
proof -
  let ?ds = "map (\<lambda>k. (x div maxValue pool ^ k) mod maxValue pool) [0..<listSize pool]"
  have list: "bigIntegerToList (Some x) (listSize pool) (Some (maxValue pool)) = map Some ?ds"
    using x0 V by (simp add: bigIntegerToList_digits o_def)
  have n: "0 + listSize pool = length ?ds" by simp
  have h0: "int (held sender) = maxSlots pool - 0" using h by simp
  from exchange_from[OF M VM digits_in_range[OF V x0] n q h0 _ r, of kBrowser late startTime]
  have "map snd (fst (exchange kBrowser pool cap late startTime (map Some ?ds) (listSize pool) 0
            (Some 0) sender receiver)) = ?ds"
    by (simp add: o_def)
  then have "listToBigInteger
           (map Some (map snd (fst (exchange kBrowser pool cap late startTime
              (bigIntegerToList (Some x) (listSize pool) (Some (maxValue pool)))
              (listSize pool) 0 (Some 0) sender receiver))))
           (listSize pool) (Some (maxValue pool))
       = listToBigInteger (map Some ?ds) (listSize pool) (Some (maxValue pool))"
    by (simp only: list)
  also have "\<dots> = Some (x mod maxValue pool ^ listSize pool)"
    using V listToBigInteger_loop_sum[of "listSize pool" "listSize pool"
        "\<lambda>k. (x div maxValue pool ^ k) mod maxValue pool" "maxValue pool" 0]
    by (simp add: listToBigInteger_def digit_sum o_def)
  also have "\<dots> = Some x" using x0 x by simp
  finally show ?thesis .
qed

section \<open>Both roles\<close>



end
